theory Spec2Isabelle
  imports Main
begin

section \<open>Code units, paths and the pattern translator of glob2\<close>

text \<open>
  The development follows \<^verbatim>\<open>src/glob2/impl.py\<close> on a POSIX path model
  (\<^verbatim>\<open>os.sep = '/'\<close>, \<^verbatim>\<open>os.curdir = '.'\<close>, \<^verbatim>\<open>os.path = posixpath\<close>, where
  \<^verbatim>\<open>normcase\<close> is the identity).  Patterns, names and paths are sequences of
  one kind of code unit, here \<^typ>\<open>char\<close>.
\<close>

abbreviation backslash :: char where
  "backslash \<equiv> CHR 0x5C"

text \<open>The exceptions that resolution could let escape: an index into an empty
  sequence, and a regular expression that does not compile.\<close>

datatype exn = IndexError | ReError

text \<open>\<^verbatim>\<open>magic_check = re.compile('[*?[]')\<close>; \<^verbatim>\<open>has_magic\<close> searches for one of the
  three characters.\<close>

definition is_magic_char :: "char \<Rightarrow> bool" where
  "is_magic_char c = (c = CHR ''*'' \<or> c = CHR ''?'' \<or> c = CHR ''['')"

definition has_magic :: "string \<Rightarrow> bool" where
  "has_magic s = list_ex is_magic_char s"

text \<open>\<^verbatim>\<open>_ishidden(path) = path[0] in ('.', ...)\<close>: reading \<^verbatim>\<open>path[0]\<close> of an empty
  sequence raises IndexError.\<close>

definition ishidden :: "string \<Rightarrow> exn + bool" where
  "ishidden path = (case path of [] \<Rightarrow> Inl IndexError | c # _ \<Rightarrow> Inr (c = CHR ''.''))"

text \<open>\<^verbatim>\<open>re.sub(r'[\\/]', sep, path)\<close>, for a replacement \<open>sep\<close> without backslash
  (such a replacement template is the literal string).\<close>

definition sub_slashes :: "string \<Rightarrow> string \<Rightarrow> string" where
  "sub_slashes repl path =
     concat (map (\<lambda>c. if c = backslash \<or> c = CHR ''/'' then repl else [c]) path)"

text \<open>\<^verbatim>\<open>posixpath.join(a, b)\<close>.\<close>

definition join :: "string \<Rightarrow> string \<Rightarrow> string" where
  "join a b =
     (if b \<noteq> [] \<and> hd b = CHR ''/'' then b
      else if a = [] \<or> last a = CHR ''/'' then a @ b
      else a @ ''/'' @ b)"

text \<open>\<^verbatim>\<open>_join_paths([a, b], sep)\<close>; the source only ever passes two paths.
  A \<open>sep\<close> that is \<^verbatim>\<open>None\<close> or empty is false, and the joined path is returned
  untouched.\<close>

definition join_paths :: "string \<Rightarrow> string \<Rightarrow> string option \<Rightarrow> string" where
  "join_paths a b sep =
     (let path = join a b in
      case sep of
        None \<Rightarrow> path
      | Some s \<Rightarrow> if s \<noteq> [] then sub_slashes s path else path)"

text \<open>\<^verbatim>\<open>posixpath.split(p)\<close>: \<open>i = p.rfind('/') + 1\<close>, head and tail are cut at
  \<open>i\<close>, and a head that is not all slashes loses its trailing slashes.\<close>

definition rfind_slash_plus1 :: "string \<Rightarrow> nat" where
  "rfind_slash_plus1 p = length (dropWhile (\<lambda>c. c \<noteq> CHR ''/'') (rev p))"

definition rstrip_slashes :: "string \<Rightarrow> string" where
  "rstrip_slashes s = rev (dropWhile (\<lambda>c. c = CHR ''/'') (rev s))"

definition split_path :: "string \<Rightarrow> string \<times> string" where
  "split_path p =
     (let i = rfind_slash_plus1 p;
          head = take i p;
          tail = drop i p;
          head = (if head \<noteq> [] \<and> head \<noteq> replicate (length head) (CHR ''/'')
                  then rstrip_slashes head else head)
      in (head, tail))"

subsection \<open>translate\<close>

text \<open>\<^verbatim>\<open>re.escape(c)\<close> for one character, as in Python 3.7 to 3.10 (the
  interpreters that still compile the trailing inline flags): the characters
  of \<^verbatim>\<open>()[]{}?*+-|^$\.&~# \t\n\r\v\f\<close> get a backslash, all others stay.\<close>

definition re_special :: "char \<Rightarrow> bool" where
  "re_special c =
     (c \<in> set ''()[]{}?*+-|^$.&~# '' \<or> c = backslash \<or> c = CHR 0x09 \<or> c = CHR 0x0A
      \<or> c = CHR 0x0D \<or> c = CHR 0x0B \<or> c = CHR 0x0C)"

definition re_escape :: "char \<Rightarrow> string" where
  "re_escape c = (if re_special c then [backslash, c] else [c])"

text \<open>\<^verbatim>\<open>while j < n and pat[j] != ']': j = j+1\<close>\<close>

function scan_close :: "string \<Rightarrow> nat \<Rightarrow> nat" where
  "scan_close pat j =
     (if j < length pat \<and> pat ! j \<noteq> CHR '']'' then scan_close pat (j + 1) else j)"
  by pat_completeness auto
termination
  by (relation "measure (\<lambda>(pat, j). length pat - j)") auto

declare scan_close.simps [simp del]

text \<open>The three steps that look for the end of a character class opened just
  before index \<open>i\<close>: skip one \<^verbatim>\<open>!\<close>, skip one \<^verbatim>\<open>]\<close>, scan to the next \<^verbatim>\<open>]\<close>.\<close>

definition class_end :: "string \<Rightarrow> nat \<Rightarrow> nat" where
  "class_end pat i =
     (let n = length pat;
          j = i;
          j = (if j < n \<and> pat ! j = CHR ''!'' then j + 1 else j);
          j = (if j < n \<and> pat ! j = CHR '']'' then j + 1 else j)
      in scan_close pat j)"

text \<open>\<^verbatim>\<open>s.replace('\\', '\\\\')\<close>\<close>

definition double_backslashes :: "string \<Rightarrow> string" where
  "double_backslashes s =
     concat (map (\<lambda>c. if c = backslash then [backslash, backslash] else [c]) s)"

text \<open>The body the class branch runs once \<open>stuff\<close> is cut out; \<^verbatim>\<open>stuff[0]\<close>
  raises IndexError on an empty \<open>stuff\<close>.\<close>

definition class_stuff :: "string \<Rightarrow> exn + string" where
  "class_stuff stuff =
     (case stuff of
        [] \<Rightarrow> Inl IndexError
      | s0 # rest \<Rightarrow>
          Inr (if s0 = CHR ''!'' then CHR ''^'' # rest
               else if s0 = CHR ''^'' then backslash # stuff
               else stuff))"

lemma scan_close_ge: "j \<le> scan_close pat j"
proof (induction pat j rule: scan_close.induct)
  case (1 pat j)
  show ?case
  proof (cases "j < length pat \<and> pat ! j \<noteq> CHR '']''")
    case True
    with 1 have "j + 1 \<le> scan_close pat (j + 1)" by simp
    with True show ?thesis by (subst scan_close.simps) simp
  next
    case False
    then show ?thesis by (subst scan_close.simps) auto
  qed
qed

lemma class_end_ge: "i \<le> class_end pat i"
proof -
  have "\<And>j. i \<le> j \<Longrightarrow> i \<le> scan_close pat j"
    using scan_close_ge order_trans by blast
  then show ?thesis by (simp add: class_end_def Let_def)
qed

text \<open>The main loop of \<^verbatim>\<open>translate\<close>, from index \<open>i\<close> with the result so far.\<close>

function translate_loop :: "string \<Rightarrow> nat \<Rightarrow> string \<Rightarrow> exn + string" where
  "translate_loop pat i res =
     (if i < length pat then
        (let c = pat ! i; i1 = i + 1 in
         if c = CHR ''*'' then translate_loop pat i1 (res @ ''(.*)'')
         else if c = CHR ''?'' then translate_loop pat i1 (res @ ''(.)'')
         else if c = CHR ''['' then
           (let j = class_end pat i1 in
            if j \<ge> length pat then translate_loop pat i1 (res @ [backslash, CHR ''[''])
            else
              (case class_stuff (double_backslashes (take (j - i1) (drop i1 pat))) of
                 Inl e \<Rightarrow> Inl e
               | Inr stuff \<Rightarrow> translate_loop pat (j + 1) (res @ ''(['' @ stuff @ ''])'')))
         else translate_loop pat i1 (res @ re_escape c))
      else Inr (res @ [backslash] @ ''Z(?ms)''))"
  by pat_completeness auto
termination
proof (relation "measure (\<lambda>(pat, i, res). length pat - i)", goal_cases)
  case (5 pat i res c i1 j stuff)
  have "i1 \<le> class_end pat i1" by (rule class_end_ge)
  with 5 show ?case by simp
qed auto

declare translate_loop.simps [simp del]

definition translate :: "string \<Rightarrow> exn + string" where
  "translate pat = translate_loop pat 0 []"

subsection \<open>The compiled matcher\<close>

text \<open>
  \<^verbatim>\<open>re.compile(res, flags).match\<close> is the standard library's; it is modelled on
  the expressions \<^verbatim>\<open>translate\<close> emits: the groups \<^verbatim>\<open>(.*)\<close>, \<^verbatim>\<open>(.)\<close> and
  \<^verbatim>\<open>([...])\<close>, a character that stands for itself, a backslash before a
  character that is no letter or digit, and the trailer \<^verbatim>\<open>\Z(?ms)\<close> (end of
  string; \<^verbatim>\<open>s\<close> lets the dot match every character).  On any other
  expression the model answers \<open>ReError\<close>.  Case folding is that of ASCII.
\<close>

datatype set_item = Single char | Range char char

datatype re_node = Literal char | GroupAny | GroupStar | GroupIn bool "set_item list"

definition is_alnum :: "char \<Rightarrow> bool" where
  "is_alnum c =
     (let n = (of_char c :: nat) in
      (48 \<le> n \<and> n \<le> 57) \<or> (65 \<le> n \<and> n \<le> 90) \<or> (97 \<le> n \<and> n \<le> 122))"

text \<open>One member of a set: a character, or a backslash and a character that
  is no letter or digit.\<close>

fun set_atom :: "string \<Rightarrow> (char \<times> string) option" where
  "set_atom [] = None"
| "set_atom (c # s) =
     (if c = backslash then
        (case s of [] \<Rightarrow> None
         | d # s' \<Rightarrow> if is_alnum d then None else Some (d, s'))
      else Some (c, s))"

lemma set_atom_shorter: "set_atom s = Some (c, r) \<Longrightarrow> length r < length s"
  by (cases s) (auto split: if_splits list.splits)

text \<open>The members of a set up to its closing bracket, which is a member
  itself where it comes first.  A range whose end is below its start is an
  error, and so is a set that does not close.\<close>

function set_items :: "bool \<Rightarrow> string \<Rightarrow> (set_item list \<times> string) option" where
  "set_items first s =
     (case s of
        [] \<Rightarrow> None
      | c # r \<Rightarrow>
          if c = CHR '']'' \<and> \<not> first then Some ([], r)
          else
            (case set_atom s of
               None \<Rightarrow> None
             | Some (lo, s1) \<Rightarrow>
                 (case s1 of
                    [] \<Rightarrow> None
                  | m # s2 \<Rightarrow>
                      if m = CHR ''-'' then
                        (case s2 of
                           [] \<Rightarrow> None
                         | t # s3 \<Rightarrow>
                             if t = CHR '']'' then Some ([Single lo, Single (CHR ''-'')], s3)
                             else
                               (case set_atom s2 of
                                  None \<Rightarrow> None
                                | Some (hi, s4) \<Rightarrow>
                                    if (of_char hi :: nat) < of_char lo then None
                                    else map_option (\<lambda>(is, rest). (Range lo hi # is, rest))
                                           (set_items False s4)))
                      else map_option (\<lambda>(is, rest). (Single lo # is, rest))
                             (set_items False s1))))"
  by pat_completeness auto
termination
proof (relation "measure (\<lambda>(first, s). length s)", goal_cases)
  case (2 first s c r x lo s1 m s2 t s3 y hi s4)
  then have "length s4 < length s2" and "length s1 < length s"
    using set_atom_shorter by metis+
  with 2 show ?case by simp
next
  case (3 first s c r x lo s1 m s2)
  then have "length s1 < length s" using set_atom_shorter by metis
  then show ?case by simp
qed auto

declare set_items.simps [simp del]

definition parse_set :: "string \<Rightarrow> (bool \<times> set_item list \<times> string) option" where
  "parse_set s =
     (let negate = (s \<noteq> [] \<and> hd s = CHR ''^'');
          s1 = (if negate then tl s else s)
      in map_option (\<lambda>(is, rest). (negate, is, rest)) (set_items True s1))"

lemma set_items_shorter: "set_items first s = Some (is, r) \<Longrightarrow> length r < length s"
proof (induction "length s" arbitrary: first s "is" r rule: less_induct)
  case less
  note IH = less.hyps
  from less.prems obtain c r0 where s: "s = c # r0"
    by (subst (asm) set_items.simps) (auto split: list.splits)
  show ?case
  proof (cases "c = CHR '']'' \<and> \<not> first")
    case True
    with less.prems s show ?thesis by (subst (asm) set_items.simps) auto
  next
    case False
    with less.prems s obtain lo s1 where a: "set_atom s = Some (lo, s1)"
      by (subst (asm) set_items.simps) (auto split: option.splits)
    then have l1: "length s1 < length s" by (rule set_atom_shorter)
    from less.prems s False a obtain m s2 where s1: "s1 = m # s2"
      by (subst (asm) set_items.simps) (auto split: list.splits)
    show ?thesis
    proof (cases "m = CHR ''-''")
      case m: True
      from less.prems s False a s1 m obtain t s3 where s2: "s2 = t # s3"
        by (subst (asm) set_items.simps) (auto split: list.splits)
      show ?thesis
      proof (cases "t = CHR '']''")
        case True
        with less.prems s False a s1 m s2 have "r = s3"
          by (subst (asm) set_items.simps) auto
        with l1 s1 s2 show ?thesis by simp
      next
        case t: False
        from less.prems s False a s1 m s2 t obtain hi s4 where b: "set_atom s2 = Some (hi, s4)"
          by (subst (asm) set_items.simps) (auto split: option.splits)
        then have l2: "length s4 < length s2" by (rule set_atom_shorter)
        from less.prems s False a s1 m s2 t b obtain is' where "set_items False s4 = Some (is', r)"
          by (subst (asm) set_items.simps) (auto split: if_splits)
        with IH[of s4 False is' r] l1 l2 s1 show ?thesis by simp
      qed
    next
      case m: False
      from less.prems s False a s1 m obtain is' where "set_items False s1 = Some (is', r)"
        by (subst (asm) set_items.simps) auto
      with IH[of s1 False is' r] l1 show ?thesis by simp
    qed
  qed
qed

lemma parse_set_shorter: "parse_set s = Some (neg, is, r) \<Longrightarrow> length r < Suc (length s)"
  by (cases s) (auto simp: parse_set_def Let_def split: if_splits dest!: set_items_shorter)

definition cons_node :: "re_node \<Rightarrow> exn + re_node list \<Rightarrow> exn + re_node list" where
  "cons_node x r = (case r of Inl e \<Rightarrow> Inl e | Inr xs \<Rightarrow> Inr (x # xs))"

definition re_trailer :: string where
  "re_trailer = [backslash] @ ''Z(?ms)''"

function re_parse :: "string \<Rightarrow> exn + re_node list" where
  "re_parse s =
     (if s = re_trailer then Inr []
      else
        (case s of
           [] \<Rightarrow> Inl ReError
         | c # r \<Rightarrow>
             if c = backslash then
               (case r of
                  [] \<Rightarrow> Inl ReError
                | d # r1 \<Rightarrow>
                    if is_alnum d then Inl ReError
                    else cons_node (Literal d) (re_parse r1))
             else if c = CHR ''('' then
               (if take 3 r = ''.*)'' then cons_node GroupStar (re_parse (drop 3 r))
                else if take 2 r = ''.)'' then cons_node GroupAny (re_parse (drop 2 r))
                else
                  (case r of
                     [] \<Rightarrow> Inl ReError
                   | b # r1 \<Rightarrow>
                       if b = CHR ''['' then
                         (case parse_set r1 of
                            None \<Rightarrow> Inl ReError
                          | Some (neg, is, r2) \<Rightarrow>
                              (case r2 of
                                 [] \<Rightarrow> Inl ReError
                               | e # r3 \<Rightarrow>
                                   if e = CHR '')'' then cons_node (GroupIn neg is) (re_parse r3)
                                   else Inl ReError))
                       else Inl ReError))
             else if re_special c then Inl ReError
             else cons_node (Literal c) (re_parse r)))"
  by pat_completeness auto
termination
proof (relation "measure length", goal_cases)
  case (5 s c r b r1 x neg y "is" r2 e r3)
  then have "length r2 < Suc (length r1)" using parse_set_shorter by metis
  with 5 show ?case by simp
qed auto

declare re_parse.simps [simp del]

text \<open>Case folding, and comparison of two characters under the matcher's flag
  (\<open>ic\<close> is \<^verbatim>\<open>re.IGNORECASE\<close>).\<close>

definition ascii_lower :: "char \<Rightarrow> char" where
  "ascii_lower c =
     (let n = (of_char c :: nat) in if 65 \<le> n \<and> n \<le> 90 then char_of (n + 32) else c)"

definition ascii_upper :: "char \<Rightarrow> char" where
  "ascii_upper c =
     (let n = (of_char c :: nat) in if 97 \<le> n \<and> n \<le> 122 then char_of (n - 32) else c)"

definition chr_eq :: "bool \<Rightarrow> char \<Rightarrow> char \<Rightarrow> bool" where
  "chr_eq ic c d = (if ic then ascii_lower c = ascii_lower d else c = d)"

definition in_range :: "char \<Rightarrow> char \<Rightarrow> char \<Rightarrow> bool" where
  "in_range lo hi d = ((of_char lo :: nat) \<le> of_char d \<and> (of_char d :: nat) \<le> of_char hi)"

fun in_item :: "bool \<Rightarrow> set_item \<Rightarrow> char \<Rightarrow> bool" where
  "in_item ic (Single c) d = chr_eq ic c d"
| "in_item ic (Range lo hi) d =
     (in_range lo hi d \<or> (ic \<and> (in_range lo hi (ascii_lower d) \<or> in_range lo hi (ascii_upper d))))"

definition in_set :: "bool \<Rightarrow> bool \<Rightarrow> set_item list \<Rightarrow> char \<Rightarrow> bool" where
  "in_set ic neg items d = (list_ex (\<lambda>it. in_item ic it d) items \<noteq> neg)"

text \<open>The first alternative that succeeds, in the order tried.\<close>

fun first_some :: "'a option list \<Rightarrow> 'a option" where
  "first_some [] = None"
| "first_some (None # xs) = first_some xs"
| "first_some (Some y # xs) = Some y"

text \<open>
  \<^verbatim>\<open>match(name)\<close> of the compiled expression: anchored at the start, ended by
  \<^verbatim>\<open>\Z\<close>, the greedy star trying the longest stretch first and backing off.
  The result is \<^verbatim>\<open>m.groups()\<close>, one string per group, or \<open>None\<close>.
\<close>

fun re_match :: "bool \<Rightarrow> re_node list \<Rightarrow> string \<Rightarrow> string list option" where
  "re_match ic [] s = (if s = [] then Some [] else None)"
| "re_match ic (Literal c # ts) s =
     (case s of [] \<Rightarrow> None
      | d # s1 \<Rightarrow> if chr_eq ic c d then re_match ic ts s1 else None)"
| "re_match ic (GroupAny # ts) s =
     (case s of [] \<Rightarrow> None
      | d # s1 \<Rightarrow> map_option (\<lambda>gs. [d] # gs) (re_match ic ts s1))"
| "re_match ic (GroupIn neg items # ts) s =
     (case s of [] \<Rightarrow> None
      | d # s1 \<Rightarrow>
          if in_set ic neg items d then map_option (\<lambda>gs. [d] # gs) (re_match ic ts s1)
          else None)"
| "re_match ic (GroupStar # ts) s =
     first_some (map (\<lambda>k. map_option (\<lambda>gs. take k s # gs) (re_match ic ts (drop k s)))
                  (rev [0..<Suc (length s)]))"

text \<open>\<^verbatim>\<open>_compile_pattern(pat, case_sensitive)\<close>; the cache in front of it does
  not change what it returns.\<close>

definition compile_pattern :: "string \<Rightarrow> bool \<Rightarrow> exn + (string \<Rightarrow> string list option)" where
  "compile_pattern pat case_sensitive =
     (case translate pat of
        Inl e \<Rightarrow> Inl e
      | Inr res \<Rightarrow>
          (case re_parse res of
             Inl e \<Rightarrow> Inl e
           | Inr nodes \<Rightarrow> Inr (re_match (\<not> case_sensitive) nodes)))"

text \<open>\<^verbatim>\<open>_compile_pattern(pat, case_sensitive)(name)\<close>, read through \<^verbatim>\<open>m.groups()\<close>:
  the captures of the match, or \<open>None\<close> where the name does not match.\<close>

definition match_groups :: "string \<Rightarrow> bool \<Rightarrow> string \<Rightarrow> exn + string list option" where
  "match_groups pat case_sensitive name =
     (case compile_pattern pat case_sensitive of
        Inl e \<Rightarrow> Inl e
      | Inr match \<Rightarrow> Inr (match name))"

text \<open>
  Notions for the statements below.  A pattern is free of classes from index
  \<open>i\<close> on if it holds no \<^verbatim>\<open>?\<close> there and every \<^verbatim>\<open>[\<close> there is one for which
  the scan of \<^verbatim>\<open>translate\<close> finds no closing bracket.  For such a pattern each
  character is translated on its own, to the text \<open>translate_char\<close> and so to
  the node \<open>char_node\<close>.
\<close>

definition translate_char :: "char \<Rightarrow> string" where
  "translate_char c = (if c = CHR ''*'' then ''(.*)'' else re_escape c)"

definition char_node :: "char \<Rightarrow> re_node" where
  "char_node c = (if c = CHR ''*'' then GroupStar else Literal c)"

definition classless_from :: "string \<Rightarrow> nat \<Rightarrow> bool" where
  "classless_from pat i =
     (\<forall>k \<in> set [i..<length pat].
        pat ! k \<noteq> CHR ''?'' \<and> (pat ! k = CHR ''['' \<longrightarrow> length pat \<le> class_end pat (k + 1)))"

section \<open>The Globber\<close>

text \<open>
  An instance of \<^verbatim>\<open>Globber\<close>: the four filesystem operations it calls (class
  attributes that a caller may replace) and its options.  \<open>listdir\<close> answers
  \<open>None\<close> where the real operation raises \<^verbatim>\<open>os.error\<close>; the three tests
  answer a boolean, as those of \<^verbatim>\<open>os.path\<close> do.
\<close>

record globber =
  listdir :: "string \<Rightarrow> string list option"
  isdir :: "string \<Rightarrow> bool"
  islink :: "string \<Rightarrow> bool"
  exists :: "string \<Rightarrow> bool"
  with_matches :: bool
  include_hidden :: bool
  followlinks :: bool
  norm_paths :: "bool option"
  case_sensitive :: bool
  sep :: "string option"

text \<open>How a call ends: with a value, with an exception, or not within the
  fuel that bounds the depth of the directory walk.  A generator is modelled
  by the list of everything it yields; one that raises on the way is modelled
  by the exception alone.\<close>

datatype 'a outcome = Returns 'a | Raises exn | OutOfFuel

definition bind_outcome :: "'a outcome \<Rightarrow> ('a \<Rightarrow> 'b outcome) \<Rightarrow> 'b outcome" where
  "bind_outcome m f = (case m of Returns x \<Rightarrow> f x | Raises e \<Rightarrow> Raises e | OutOfFuel \<Rightarrow> OutOfFuel)"

definition lift_exn :: "exn + 'a \<Rightarrow> 'a outcome" where
  "lift_exn r = (case r of Inl e \<Rightarrow> Raises e | Inr x \<Rightarrow> Returns x)"

text \<open>\<^verbatim>\<open>for x in xs: for y in f(x): yield y\<close>\<close>

fun collect :: "('a \<Rightarrow> 'b list outcome) \<Rightarrow> 'a list \<Rightarrow> 'b list outcome" where
  "collect f [] = Returns []"
| "collect f (x # xs) =
     bind_outcome (f x) (\<lambda>ys. bind_outcome (collect f xs) (\<lambda>zs. Returns (ys @ zs)))"

text \<open>\<^verbatim>\<open>Globber.walk(top)\<close>.  The recursion follows the filesystem, which may
  have no bottom, so it runs on fuel: \<open>None\<close> says that the fuel did not
  suffice.  (\<open>top0\<close> is the source's \<open>top\<close>.)\<close>

fun walk :: "globber \<Rightarrow> nat \<Rightarrow> string \<Rightarrow> (string \<times> string list) list option" where
  "walk self 0 top0 = None"
| "walk self (Suc fuel) top0 =
     (case listdir self top0 of
        None \<Rightarrow> Some []
      | Some names \<Rightarrow>
          (let items = names in
           map_option (\<lambda>subs. (top0, items) # concat subs)
             (those (map (\<lambda>name.
                            let new_path = join_paths top0 name (sep self) in
                            if followlinks self \<or> \<not> islink self new_path
                            then walk self fuel new_path
                            else Some [])
                       items))))"

text \<open>\<^verbatim>\<open>Globber._norm_paths(path)\<close>; \<^verbatim>\<open>self.sep or os.sep\<close> is \<open>/\<close> for a \<open>sep\<close>
  that is \<^verbatim>\<open>None\<close> or empty.\<close>

definition apply_norm_paths :: "globber \<Rightarrow> string \<Rightarrow> string" where
  "apply_norm_paths self path =
     (case norm_paths self of
        None \<Rightarrow>
          sub_slashes (case sep self of None \<Rightarrow> ''/'' | Some s \<Rightarrow> if s \<noteq> [] then s else ''/'') path
      | Some b \<Rightarrow> path)"

text \<open>\<^verbatim>\<open>Globber.filter(names, pat)\<close>\<close>

definition filter_names ::
  "globber \<Rightarrow> string list \<Rightarrow> string \<Rightarrow> exn + (string \<times> string list) list" where
  "filter_names self names pat =
     (let pat = apply_norm_paths self pat in
      case compile_pattern pat (case_sensitive self) of
        Inl e \<Rightarrow> Inl e
      | Inr match \<Rightarrow>
          Inr (List.map_filter
                 (\<lambda>name. case match (apply_norm_paths self name) of
                            None \<Rightarrow> None
                          | Some groups \<Rightarrow> Some (name, map (apply_norm_paths self) groups))
                 names))"

text \<open>\<^verbatim>\<open>filter(lambda x: not x or not _ishidden(x), names)\<close>\<close>

definition visible :: "string \<Rightarrow> exn + bool" where
  "visible x =
     (if x = [] then Inr True
      else (case ishidden x of Inl e \<Rightarrow> Inl e | Inr h \<Rightarrow> Inr (\<not> h)))"

fun drop_hidden :: "string list \<Rightarrow> exn + string list" where
  "drop_hidden [] = Inr []"
| "drop_hidden (x # xs) =
     (case visible x of
        Inl e \<Rightarrow> Inl e
      | Inr keep \<Rightarrow>
          (case drop_hidden xs of
             Inl e \<Rightarrow> Inl e
           | Inr ys \<Rightarrow> Inr (if keep then x # ys else ys)))"

text \<open>The candidate names of the segment \<^verbatim>\<open>**\<close>: the empty name first if
  asked for, then every entry the walk meets, relative to \<open>dirname\<close>.\<close>

definition globstar_names :: "globber \<Rightarrow> nat \<Rightarrow> string \<Rightarrow> bool \<Rightarrow> string list option" where
  "globstar_names self fuel dirname globstar_with_root =
     (case walk self fuel dirname of
        None \<Rightarrow> None
      | Some visited \<Rightarrow>
          Some ((if globstar_with_root then [[]] else []) @
                concat (map (\<lambda>(top0, entries).
                               map (\<lambda>s. join_paths (drop (length dirname + 1) top0) s (sep self))
                                 entries)
                          visited)))"

text \<open>The \<^verbatim>\<open>try\<close> block of \<^verbatim>\<open>resolve_pattern\<close>: the names to filter and the
  pattern to filter them with, or \<open>None\<close> where \<^verbatim>\<open>os.error\<close> was caught.\<close>

definition list_candidates ::
  "globber \<Rightarrow> nat \<Rightarrow> string \<Rightarrow> string \<Rightarrow> bool \<Rightarrow> (string list \<times> string) option outcome" where
  "list_candidates self fuel dirname pattern globstar_with_root =
     (if pattern = ''**'' then
        (case globstar_names self fuel dirname globstar_with_root of
           None \<Rightarrow> OutOfFuel
         | Some names \<Rightarrow> Returns (Some (names, ''*'')))
      else
        (case listdir self dirname of
           None \<Rightarrow> Returns None
         | Some names \<Rightarrow> Returns (Some (names, pattern))))"

text \<open>\<^verbatim>\<open>Globber.resolve_pattern(dirname, pattern, globstar_with_root)\<close>\<close>

definition resolve_pattern ::
  "globber \<Rightarrow> nat \<Rightarrow> string \<Rightarrow> string \<Rightarrow> bool \<Rightarrow> (string \<times> string list) list outcome" where
  "resolve_pattern self fuel dirname pattern globstar_with_root =
     (if \<not> has_magic pattern then
        (if pattern = [] then
           (if isdir self dirname then Returns [(pattern, [])] else Returns [])
         else
           (if exists self (join_paths dirname pattern (sep self))
            then Returns [(pattern, [])] else Returns []))
      else
        (let dirname = (if dirname = [] then ''.'' else dirname) in
         bind_outcome (list_candidates self fuel dirname pattern globstar_with_root)
           (\<lambda>listed.
              case listed of
                None \<Rightarrow> Returns []
              | Some (names, pattern) \<Rightarrow>
                  bind_outcome
                    (if \<not> include_hidden self then
                       bind_outcome (lift_exn (ishidden pattern))
                         (\<lambda>h. if \<not> h then lift_exn (drop_hidden names) else Returns names)
                     else Returns names)
                    (\<lambda>names. lift_exn (filter_names self names pattern)))))"

lemma split_path_prefix: "\<exists>k. fst (split_path p) = take k p"
proof -
  have r: "\<And>h. rstrip_slashes h = take (length h - length (takeWhile (\<lambda>c. c = CHR ''/'') (rev h))) h"
    by (simp add: rstrip_slashes_def dropWhile_eq_drop rev_drop)
  show ?thesis
    unfolding split_path_def Let_def
    by (cases "take (rfind_slash_plus1 p) p \<noteq> [] \<and>
          take (rfind_slash_plus1 p) p \<noteq>
          replicate (length (take (rfind_slash_plus1 p) p)) (CHR ''/'')")
      (auto simp: r)
qed

lemma split_path_shorter:
  assumes "fst (split_path p) \<noteq> p"
  shows "length (fst (split_path p)) < length p"
proof -
  obtain k where k: "fst (split_path p) = take k p" using split_path_prefix by blast
  with assms have "k < length p" by (cases "k < length p") auto
  with k show ?thesis by simp
qed

text \<open>\<^verbatim>\<open>Globber._iglob(pathname, rootcall)\<close>\<close>

function iglob_impl ::
  "globber \<Rightarrow> nat \<Rightarrow> string \<Rightarrow> bool \<Rightarrow> (string \<times> string list) list outcome" where
  "iglob_impl self fuel pathname rootcall =
     (if \<not> has_magic pathname then
        (if exists self pathname then Returns [(pathname, [])] else Returns [])
      else
        (let (dirname, basename) = split_path pathname in
         bind_outcome
           (if dirname \<noteq> pathname \<and> has_magic dirname
            then iglob_impl self fuel dirname False
            else Returns [(dirname, [])])
           (collect (\<lambda>(dirname, dir_groups).
              bind_outcome (resolve_pattern self fuel dirname basename (\<not> rootcall))
                (\<lambda>found. Returns (map (\<lambda>(name, groups).
                                          (join_paths dirname name (sep self), dir_groups @ groups))
                                    found))))))"
  by pat_completeness auto
termination
proof (relation "measure (\<lambda>(self, fuel, pathname, rootcall). length pathname)", goal_cases)
  case (2 self fuel pathname rootcall x dirname basename)
  then have "fst (split_path pathname) \<noteq> pathname" by (metis fst_conv)
  then have "length (fst (split_path pathname)) < length pathname" by (rule split_path_shorter)
  with 2 show ?case by (metis fst_conv in_measure case_prod_conv)
qed auto

declare iglob_impl.simps [simp del]

text \<open>\<^verbatim>\<open>Globber.iglob(pathname)\<close> and \<^verbatim>\<open>Globber.glob(pathname)\<close>: pairs of path and
  captures under \<open>with_matches\<close>, bare paths otherwise.\<close>

definition iglob ::
  "globber \<Rightarrow> nat \<Rightarrow> string \<Rightarrow> (string list + (string \<times> string list) list) outcome" where
  "iglob self fuel pathname =
     bind_outcome (iglob_impl self fuel pathname True)
       (\<lambda>result. Returns (if with_matches self then Inr result else Inl (map fst result)))"

definition glob ::
  "globber \<Rightarrow> nat \<Rightarrow> string \<Rightarrow> (string list + (string \<times> string list) list) outcome" where
  "glob self fuel pathname = iglob self fuel pathname"




section \<open>The trees of the test suite\<close>

text \<open>
  The tree of \<^verbatim>\<open>TestRecursive\<close> in \<^verbatim>\<open>src/tests/test_glob2.py\<close>, seen from its
  base directory: directories \<^verbatim>\<open>a\<close>, \<^verbatim>\<open>b\<close>, \<^verbatim>\<open>a/foo\<close> and eight files.  A
  directory answers under each spelling of its path that resolution forms.
\<close>

definition unslash :: "string \<Rightarrow> string" where
  "unslash p =
     (let q = (if take 2 p = ''./'' then drop 2 p else p)
      in if q \<noteq> [] \<and> last q = CHR ''/'' then butlast q else q)"

definition tree_dirs :: "(string \<times> string list) list" where
  "tree_dirs =
     [(''.'', [''a'', ''b'', ''file.py'', ''file.txt'', ''README'']),
      (''a'', [''bar.py'', ''foo'']),
      (''a/foo'', [''hello.py'', ''world.txt'']),
      (''b'', [''py'', ''bar.py''])]"

definition tree_files :: "string list" where
  "tree_files =
     [''file.py'', ''file.txt'', ''README'', ''a/bar.py'', ''b/py'', ''b/bar.py'',
      ''a/foo/hello.py'', ''a/foo/world.txt'']"

definition tree :: globber where
  "tree =
     \<lparr> listdir = (\<lambda>p. map_of tree_dirs (unslash p)),
       isdir = (\<lambda>p. map_of tree_dirs (unslash p) \<noteq> None),
       islink = (\<lambda>p. False),
       exists = (\<lambda>p. map_of tree_dirs (unslash p) \<noteq> None \<or> unslash p \<in> set tree_files),
       with_matches = True, include_hidden = False, followlinks = False,
       norm_paths = None, case_sensitive = True, sep = Some ''/'' \<rparr>"

text \<open>The tree of \<^verbatim>\<open>TestIncludeHidden\<close>, with one hidden directory \<^verbatim>\<open>.cache\<close>
  added to the base directory.\<close>

definition hidden_dirs :: "(string \<times> string list) list" where
  "hidden_dirs =
     [(''.'', [''a'', ''b'', ''.cache'', ''file.py'', ''file.txt'', ''README'']),
      (''a'', [''.bar'', ''.foo'']),
      (''a/.foo'', [''hello.py'', ''world.txt'']),
      (''b'', [''py'', ''.bar'']),
      (''.cache'', [''x''])]"

definition hidden_tree :: globber where
  "hidden_tree =
     \<lparr> listdir = (\<lambda>p. map_of hidden_dirs (unslash p)),
       isdir = (\<lambda>p. map_of hidden_dirs (unslash p) \<noteq> None),
       islink = (\<lambda>p. False),
       exists = (\<lambda>p. True),
       with_matches = True, include_hidden = False, followlinks = False,
       norm_paths = None, case_sensitive = True, sep = Some ''/'' \<rparr>"





section \<open>Facts about the translator, the matcher and the walk\<close>

lemma scan_close_stop:
  "scan_close pat j < length pat \<Longrightarrow> pat ! (scan_close pat j) = CHR '']''"
proof (induction pat j rule: scan_close.induct)
  case (1 pat j)
  show ?case
  proof (cases "j < length pat \<and> pat ! j \<noteq> CHR '']''")
    case True
    then have e: "scan_close pat j = scan_close pat (j + 1)"
      by (subst scan_close.simps) simp
    with 1 True show ?thesis by simp
  next
    case False
    then have e: "scan_close pat j = j" by (subst scan_close.simps) auto
    with "1.prems" False show ?thesis by auto
  qed
qed

lemma class_end_gt:
  assumes "class_end pat i < length pat"
  shows "i < class_end pat i"
proof -
  from assms class_end_ge [of i pat] have i: "i < length pat" by simp
  have ge: "\<And>j. Suc i \<le> j \<Longrightarrow> Suc i \<le> scan_close pat j"
    using scan_close_ge order_trans by blast
  have "Suc i \<le> class_end pat i"
  proof (cases "pat ! i = CHR ''!'' \<or> pat ! i = CHR '']''")
    case True
    with i show ?thesis by (auto simp: class_end_def Let_def intro!: ge)
  next
    case False
    with i have "class_end pat i = scan_close pat (Suc i)"
      by (simp add: class_end_def Let_def scan_close.simps [of pat i])
    then show ?thesis by (simp add: ge)
  qed
  then show ?thesis by simp
qed

lemma double_backslashes_Nil [simp]: "(double_backslashes s = []) = (s = [])"
  by (cases s) (auto simp: double_backslashes_def)

lemma class_stuff_Inr: "stuff \<noteq> [] \<Longrightarrow> \<exists>r. class_stuff stuff = Inr r"
  by (cases stuff) (auto simp: class_stuff_def)

lemma translate_loop_Inr: "\<exists>r. translate_loop pat i res = Inr r"
proof (induction pat i res rule: translate_loop.induct)
  case (1 pat i res)
  show ?case
  proof (cases "i < length pat")
    case False
    then show ?thesis by (subst translate_loop.simps) simp
  next
    case i: True
    consider (star) "pat ! i = CHR ''*''" | (quest) "pat ! i = CHR ''?''"
      | (brack) "pat ! i = CHR ''[''" | (other) "pat ! i \<noteq> CHR ''*''" "pat ! i \<noteq> CHR ''?''" "pat ! i \<noteq> CHR ''[''"
      by blast
    then show ?thesis
    proof cases
      case star
      with i "1.IH"(1) [OF i refl refl] show ?thesis
        by (subst translate_loop.simps) simp
    next
      case quest
      with i "1.IH"(2) [OF i refl refl] show ?thesis
        by (subst translate_loop.simps) simp
    next
      case other
      with i "1.IH"(5) [OF i refl refl] show ?thesis
        by (subst translate_loop.simps) simp
    next
      case brack
      show ?thesis
      proof (cases "length pat \<le> class_end pat (i + 1)")
        case True
        with i brack "1.IH"(3) [OF i refl refl _ _ _ refl] show ?thesis
          by (subst translate_loop.simps) simp
      next
        case False
        then have "i + 1 < class_end pat (i + 1)" using class_end_gt by simp
        with False have "double_backslashes (take (class_end pat (i + 1) - (i + 1)) (drop (i + 1) pat)) \<noteq> []"
          by simp
        then obtain stuff where st:
          "class_stuff (double_backslashes (take (class_end pat (i + 1) - (i + 1)) (drop (i + 1) pat))) = Inr stuff"
          using class_stuff_Inr by blast
        with i brack False "1.IH"(4) [OF i refl refl _ _ _ refl _ st] show ?thesis
          by (subst translate_loop.simps) simp
      qed
    qed
  qed
qed

lemma translate_Inr: "\<exists>r. translate pat = Inr r"
  by (simp add: translate_def translate_loop_Inr)

lemma cons_node_Inl: "cons_node x r = Inl e \<Longrightarrow> r = Inl e"
  by (auto simp: cons_node_def split: sum.splits)

lemma re_parse_error: "re_parse s = Inl e \<Longrightarrow> e = ReError"
proof (induction "length s" arbitrary: s rule: less_induct)
  case less
  have IH: "\<And>r. length r < length s \<Longrightarrow> re_parse r = Inl e \<Longrightarrow> e = ReError"
    using less.hyps by blast
  show ?case
  proof (cases "e = ReError")
    case True then show ?thesis .
  next
    case False
    have c: "\<And>x r. length r < length s \<Longrightarrow> cons_node x (re_parse r) \<noteq> Inl e"
      using IH False cons_node_Inl by blast
    from less.prems False show ?thesis
      apply (subst (asm) re_parse.simps)
      apply (simp split: if_splits list.splits option.splits prod.splits add: c)
      apply (auto dest!: parse_set_shorter simp: c)
      done
  qed
qed

lemma compile_pattern_error: "compile_pattern pat cs = Inl e \<Longrightarrow> e = ReError"
  using translate_Inr [of pat]
  by (auto simp: compile_pattern_def split: sum.splits dest: re_parse_error)

lemma has_magic_nonempty: "has_magic p \<Longrightarrow> p \<noteq> []"
  by (auto simp: has_magic_def)

lemma ishidden_nonempty: "p \<noteq> [] \<Longrightarrow> ishidden p = Inr (hd p = CHR ''.'')"
  by (cases p) (auto simp: ishidden_def)

lemma visible_eq: "visible x = Inr (x = [] \<or> hd x \<noteq> CHR ''.'')"
  by (cases x) (auto simp: visible_def ishidden_def)

lemma drop_hidden_eq: "drop_hidden names = Inr (filter (\<lambda>x. x = [] \<or> hd x \<noteq> CHR ''.'') names)"
  by (induction names) (auto simp: visible_eq)

lemma first_some_Some: "first_some xs = Some y \<Longrightarrow> Some y \<in> set xs"
  by (induction xs rule: first_some.induct) auto

lemma re_match_star_only: "re_match ic [GroupStar] s = Some [s]"
  by simp

lemma translate_star: "translate ''*'' = Inr (''(.*)'' @ re_trailer)"
  by (simp add: translate_def translate_loop.simps re_trailer_def)

lemma re_parse_trailer: "re_parse re_trailer = Inr []"
  by (subst re_parse.simps) simp

lemma re_parse_star:
  "re_parse (CHR ''('' # CHR ''.'' # CHR ''*'' # CHR '')'' # s) = cons_node GroupStar (re_parse s)"
  by (subst re_parse.simps) (simp add: re_trailer_def)

lemma re_parse_any:
  "re_parse (CHR ''('' # CHR ''.'' # CHR '')'' # s) = cons_node GroupAny (re_parse s)"
  by (subst re_parse.simps) (simp add: re_trailer_def)

lemma re_special_not_alnum: "re_special c \<Longrightarrow> \<not> is_alnum c"
  by (auto simp: re_special_def is_alnum_def)

lemma re_parse_escape: "re_parse (re_escape c @ s) = cons_node (Literal c) (re_parse s)"
proof (cases "re_special c")
  case True
  then have "\<not> is_alnum c" by (rule re_special_not_alnum)
  with True show ?thesis
    by (subst re_parse.simps) (auto simp: re_escape_def re_trailer_def is_alnum_def)
next
  case False
  then have "c \<noteq> backslash" and "c \<noteq> CHR ''(''" by (auto simp: re_special_def)
  with False show ?thesis
    by (subst re_parse.simps) (auto simp: re_escape_def re_trailer_def)
qed

lemma compile_pattern_star: "compile_pattern ''*'' cs = Inr (re_match (\<not> cs) [GroupStar])"
  by (simp add: compile_pattern_def translate_star re_parse_star re_parse_trailer cons_node_def)

lemma apply_norm_paths_star: "apply_norm_paths self ''*'' = ''*''"
  by (simp add: apply_norm_paths_def sub_slashes_def split: option.splits)

lemma map_filter_all: "List.map_filter (\<lambda>x. Some (f x)) xs = map f xs"
  by (induction xs) (auto simp: List.map_filter_def)

lemma filter_names_star:
  "filter_names self names ''*'' =
     Inr (map (\<lambda>n. (n, [apply_norm_paths self (apply_norm_paths self n)])) names)"
  by (simp add: filter_names_def apply_norm_paths_star compile_pattern_star map_filter_all)

lemma filter_names_error: "filter_names self names pat = Inl e \<Longrightarrow> e = ReError"
  by (auto simp: filter_names_def Let_def split: sum.splits dest: compile_pattern_error)

lemma filter_names_subset:
  "filter_names self names pat = Inr rs \<Longrightarrow> fst ` set rs \<subseteq> set names"
  by (auto simp: filter_names_def Let_def List.map_filter_def split: sum.splits option.splits)

lemma resolve_pattern_globstar:
  "resolve_pattern self fuel dirname ''**'' g =
     (case globstar_names self fuel (if dirname = [] then ''.'' else dirname) g of
        None \<Rightarrow> OutOfFuel
      | Some names \<Rightarrow>
          Returns (map (\<lambda>n. (n, [apply_norm_paths self (apply_norm_paths self n)]))
                     (if include_hidden self then names
                      else filter (\<lambda>x. x = [] \<or> hd x \<noteq> CHR ''.'') names)))"
  by (simp add: resolve_pattern_def has_magic_def is_magic_char_def list_candidates_def
      bind_outcome_def lift_exn_def ishidden_def drop_hidden_eq filter_names_star Let_def
      split: option.splits)

lemma resolve_pattern_magic:
  assumes "has_magic pattern" and "pattern \<noteq> ''**''"
  shows "resolve_pattern self fuel dirname pattern g =
     (case listdir self (if dirname = [] then ''.'' else dirname) of
        None \<Rightarrow> Returns []
      | Some names \<Rightarrow>
          lift_exn (filter_names self
                     (if include_hidden self \<or> hd pattern = CHR ''.'' then names
                      else filter (\<lambda>x. x = [] \<or> hd x \<noteq> CHR ''.'') names)
                     pattern))"
  using assms
  by (simp add: resolve_pattern_def list_candidates_def bind_outcome_def lift_exn_def
      ishidden_nonempty [OF has_magic_nonempty] drop_hidden_eq Let_def
      split: option.splits)









lemma bind_outcome_simps [simp]:
  "bind_outcome (Returns x) f = f x"
  "bind_outcome (Raises e) f = Raises e"
  "bind_outcome OutOfFuel f = OutOfFuel"
  by (simp_all add: bind_outcome_def)


lemma bind_outcome_Raises:
  "bind_outcome m f = Raises e \<longleftrightarrow> m = Raises e \<or> (\<exists>x. m = Returns x \<and> f x = Raises e)"
  by (cases m) auto

lemma collect_Raises:
  "collect f xs = Raises e \<Longrightarrow> \<exists>x \<in> set xs. f x = Raises e"
  by (induction xs) (auto simp: bind_outcome_Raises)


lemma lift_exn_simps [simp]:
  "lift_exn (Inl e) = Raises e"
  "lift_exn (Inr x) = Returns x"
  by (simp_all add: lift_exn_def)

lemma resolve_pattern_no_IndexError:
  "resolve_pattern self fuel dirname pattern g \<noteq> Raises IndexError"
proof (cases "has_magic pattern")
  case False
  then show ?thesis by (simp add: resolve_pattern_def)
next
  case True
  show ?thesis
  proof (cases "pattern = ''**''")
    case True
    then show ?thesis by (simp add: resolve_pattern_globstar split: option.splits)
  next
    case False
    show ?thesis
      using filter_names_error
      by (auto simp: resolve_pattern_magic [OF True False] lift_exn_def
          split: option.splits sum.splits)
  qed
qed

lemma iglob_impl_no_IndexError:
  "iglob_impl self fuel pathname rootcall \<noteq> Raises IndexError"
proof (induction self fuel pathname rootcall rule: iglob_impl.induct)
  case (1 self fuel pathname rootcall)
  show ?case
  proof (cases "has_magic pathname")
    case False
    then show ?thesis by (subst iglob_impl.simps) simp
  next
    case True
    obtain d b where sp: "split_path pathname = (d, b)" by (cases "split_path pathname")
    have dirs: "(if d \<noteq> pathname \<and> has_magic d then iglob_impl self fuel d False
                 else Returns [(d, [])]) \<noteq> Raises IndexError"
      using "1.IH" [OF _ sp [symmetric] refl] True by auto
    show ?thesis
    proof
      assume "iglob_impl self fuel pathname rootcall = Raises IndexError"
      with True sp dirs obtain ds where
        "collect (\<lambda>(dirname, dir_groups).
              bind_outcome (resolve_pattern self fuel dirname b (\<not> rootcall))
                (\<lambda>found. Returns (map (\<lambda>(name, groups).
                                          (join_paths dirname name (sep self), dir_groups @ groups))
                                    found))) ds = Raises IndexError"
        by (subst (asm) iglob_impl.simps) (auto simp: bind_outcome_Raises)
      from collect_Raises [OF this] show False
        by (auto simp: bind_outcome_Raises resolve_pattern_no_IndexError)
    qed
  qed
qed




lemma filter_names_member:
  "filter_names self names pat = Inr rs \<Longrightarrow> (name, groups) \<in> set rs \<Longrightarrow> name \<in> set names"
  using filter_names_subset [of self names pat rs] by force






lemma classless_from_iff:
  "classless_from pat i \<longleftrightarrow>
     (\<forall>k. i \<le> k \<and> k < length pat \<longrightarrow>
        pat ! k \<noteq> CHR ''?'' \<and> (pat ! k = CHR ''['' \<longrightarrow> length pat \<le> class_end pat (k + 1)))"
  by (auto simp: classless_from_def)

lemma classless_from_Suc: "classless_from pat i \<Longrightarrow> classless_from pat (Suc i)"
  by (simp add: classless_from_iff)

lemma translate_loop_classless:
  "classless_from pat i \<Longrightarrow>
   translate_loop pat i res = Inr (res @ concat (map translate_char (drop i pat)) @ re_trailer)"
proof (induction "length pat - i" arbitrary: i res)
  case 0
  then show ?case by (subst translate_loop.simps) (simp add: re_trailer_def)
next
  case (Suc n)
  then have i: "i < length pat" by simp
  from Suc.prems have c: "classless_from pat (Suc i)" by (rule classless_from_Suc)
  from Suc.hyps(2) have n: "n = length pat - Suc i" by simp
  note IH = Suc.hyps(1) [OF n c]
  from Suc.prems i have q: "pat ! i \<noteq> CHR ''?''"
    and b: "pat ! i = CHR ''['' \<Longrightarrow> length pat \<le> class_end pat (Suc i)"
    by (auto simp: classless_from_iff)
  have d: "drop i pat = pat ! i # drop (Suc i) pat" using i by (simp add: Cons_nth_drop_Suc)
  show ?case
  proof (cases "pat ! i = CHR ''*''")
    case True
    with i show ?thesis
      by (subst translate_loop.simps) (simp add: IH d translate_char_def)
  next
    case False
    show ?thesis
    proof (cases "pat ! i = CHR ''[''")
      case True
      with i b show ?thesis
        by (subst translate_loop.simps)
          (simp add: IH d translate_char_def re_escape_def re_special_def)
    next
      case nb: False
      with i q False show ?thesis
        by (subst translate_loop.simps) (simp add: IH d translate_char_def)
    qed
  qed
qed

lemma re_parse_translate_chars:
  "re_parse (concat (map translate_char cs) @ re_trailer) = Inr (map char_node cs)"
proof (induction cs)
  case Nil
  then show ?case by (simp add: re_parse_trailer)
next
  case (Cons c cs)
  let ?rest = "concat (map translate_char cs) @ re_trailer"
  show ?case
  proof (cases "c = CHR ''*''")
    case True
    then have t: "translate_char c = ''(.*)''" and n: "char_node c = GroupStar"
      by (simp_all add: translate_char_def char_node_def)
    have "re_parse (concat (map translate_char (c # cs)) @ re_trailer) =
            re_parse (CHR ''('' # CHR ''.'' # CHR ''*'' # CHR '')'' # ?rest)"
      by (simp add: t)
    also have "\<dots> = cons_node GroupStar (re_parse ?rest)" by (rule re_parse_star)
    also have "\<dots> = Inr (map char_node (c # cs))" by (simp add: Cons n cons_node_def)
    finally show ?thesis .
  next
    case False
    then have t: "translate_char c = re_escape c" and n: "char_node c = Literal c"
      by (simp_all add: translate_char_def char_node_def)
    have "re_parse (concat (map translate_char (c # cs)) @ re_trailer) =
            re_parse (re_escape c @ ?rest)"
      by (simp add: t)
    also have "\<dots> = cons_node (Literal c) (re_parse ?rest)" by (rule re_parse_escape)
    also have "\<dots> = Inr (map char_node (c # cs))" by (simp add: Cons n cons_node_def)
    finally show ?thesis .
  qed
qed

lemma compile_pattern_classless:
  "classless_from pat 0 \<Longrightarrow>
   compile_pattern pat cs = Inr (re_match (\<not> cs) (map char_node pat))"
  by (simp add: compile_pattern_def translate_def translate_loop_classless
      re_parse_translate_chars)

lemma re_match_literals:
  "re_match ic (map Literal p @ ts) s =
     (if length p \<le> length s \<and> list_all2 (chr_eq ic) p (take (length p) s)
      then re_match ic ts (drop (length p) s) else None)"
proof (induction p arbitrary: s)
  case Nil
  then show ?case by simp
next
  case (Cons c p)
  show ?case
  proof (cases s)
    case Nil
    then show ?thesis by simp
  next
    case (Cons d s1)
    then show ?thesis by (simp add: Cons.IH)
  qed
qed

lemma re_match_literals_end:
  assumes "re_match ic (map Literal p) s = Some caps"
  shows "caps = [] \<and> length s = length p \<and> list_all2 (chr_eq ic) p s"
proof -
  from assms have m: "re_match ic (map Literal p @ []) s = Some caps" by simp
  have c: "length p \<le> length s \<and> list_all2 (chr_eq ic) p (take (length p) s)"
  proof (rule ccontr)
    assume "\<not> ?thesis"
    with m show False by (simp only: re_match_literals if_False) simp
  qed
  with m have r: "re_match ic [] (drop (length p) s) = Some caps"
    by (simp only: re_match_literals if_True simp_thms)
  then have "drop (length p) s = []" and "caps = []" by (auto split: if_splits)
  with c show ?thesis by simp
qed

lemma re_match_star:
  assumes "re_match ic (GroupStar # ts) s = Some caps"
  shows "\<exists>k gs. k \<le> length s \<and> re_match ic ts (drop k s) = Some gs \<and> caps = take k s # gs"
proof -
  from assms have "Some caps \<in> set (map (\<lambda>k. map_option (\<lambda>gs. take k s # gs) (re_match ic ts (drop k s)))
                  (rev [0..<Suc (length s)]))"
    by (simp only: re_match.simps) (rule first_some_Some)
  then obtain k where k: "k \<in> set (rev [0..<Suc (length s)])"
    and e: "map_option (\<lambda>gs. take k s # gs) (re_match ic ts (drop k s)) = Some caps"
    by (auto simp only: set_map)
  from k have "k \<le> length s" by auto
  moreover from e obtain gs where "re_match ic ts (drop k s) = Some gs" and "caps = take k s # gs"
    by (cases "re_match ic ts (drop k s)") auto
  ultimately show ?thesis by blast
qed

lemma chr_eq_lower: "chr_eq ic c d \<Longrightarrow> ascii_lower c = ascii_lower d"
  by (auto simp: chr_eq_def split: if_splits)

lemma list_all2_chr_eq_lower:
  "list_all2 (chr_eq ic) p q \<Longrightarrow> map ascii_lower p = map ascii_lower q"
  by (induction rule: list_all2_induct) (auto dest: chr_eq_lower)

lemma list_all2_chr_eq_sensitive: "list_all2 (chr_eq False) p q \<Longrightarrow> p = q"
  by (induction rule: list_all2_induct) (auto simp: chr_eq_def)

lemma not_magic_char_node: "\<not> has_magic p \<Longrightarrow> map char_node p = map Literal p"
  by (induction p) (auto simp: has_magic_def is_magic_char_def char_node_def)

lemma not_magic_chars:
  "\<not> has_magic p \<Longrightarrow> c \<in> set p \<Longrightarrow> c \<noteq> CHR ''*'' \<and> c \<noteq> CHR ''?'' \<and> c \<noteq> CHR ''[''"
  unfolding has_magic_def list_ex_iff is_magic_char_def by blast

lemma single_star_classless:
  assumes "\<not> has_magic pre" and "\<not> has_magic suf"
  shows "classless_from (pre @ ''*'' @ suf) 0"
proof -
  let ?pat = "pre @ ''*'' @ suf"
  have mem: "\<And>c. c \<in> set ?pat \<Longrightarrow> c \<noteq> CHR ''?'' \<and> c \<noteq> CHR ''[''"
  proof -
    fix c assume "c \<in> set ?pat"
    then consider "c \<in> set pre" | "c = CHR ''*''" | "c \<in> set suf" by auto
    then show "c \<noteq> CHR ''?'' \<and> c \<noteq> CHR ''[''"
    proof cases
      case 1
      with assms(1) show ?thesis using not_magic_chars by blast
    next
      case 2
      then show ?thesis by simp
    next
      case 3
      with assms(2) show ?thesis using not_magic_chars by blast
    qed
  qed
  show ?thesis
    unfolding classless_from_iff
  proof (intro allI impI)
    fix k assume "0 \<le> k \<and> k < length ?pat"
    then have "?pat ! k \<in> set ?pat" by (simp only: nth_mem)
    from mem [OF this]
    show "?pat ! k \<noteq> CHR ''?'' \<and> (?pat ! k = CHR ''['' \<longrightarrow> length ?pat \<le> class_end ?pat (k + 1))"
      by blast
  qed
qed

lemma single_star_match:
  assumes "re_match ic (map Literal pre @ GroupStar # map Literal suf) N = Some caps"
  shows "length pre + length suf \<le> length N \<and>
         caps = [drop (length pre) (take (length N - length suf) N)] \<and>
         list_all2 (chr_eq ic) pre (take (length pre) N) \<and>
         list_all2 (chr_eq ic) suf (drop (length N - length suf) N)"
proof -
  have la: "length pre \<le> length N \<and> list_all2 (chr_eq ic) pre (take (length pre) N)"
  proof (rule ccontr)
    assume "\<not> ?thesis"
    with assms show False by (simp only: re_match_literals if_False) simp
  qed
  then have l: "length pre \<le> length N"
    and a: "list_all2 (chr_eq ic) pre (take (length pre) N)"
    by simp_all
  from la assms have r: "re_match ic (GroupStar # map Literal suf) (drop (length pre) N) = Some caps"
    by (simp only: re_match_literals if_True simp_thms)
  let ?s = "drop (length pre) N"
  from re_match_star [OF r] obtain k gs where k: "k \<le> length ?s"
    and m: "re_match ic (map Literal suf) (drop k ?s) = Some gs" and c: "caps = take k ?s # gs"
    by blast
  from re_match_literals_end [OF m] have g: "gs = []" and e: "length (drop k ?s) = length suf"
    and b: "list_all2 (chr_eq ic) suf (drop k ?s)"
    by simp_all
  from e k l have n: "length pre + length suf \<le> length N" and kk: "length pre + k = length N - length suf"
    by simp_all
  from kk have k': "k = length N - length suf - length pre" by arith
  have t: "take k ?s = drop (length pre) (take (length N - length suf) N)"
    unfolding k' by (simp only: drop_take)
  have "drop k ?s = drop (k + length pre) N" by (simp only: drop_drop)
  also have "k + length pre = length N - length suf" using kk by arith
  finally have d: "drop k ?s = drop (length N - length suf) N" .
  from c g t have cc: "caps = [drop (length pre) (take (length N - length suf) N)]" by simp
  from b d have bb: "list_all2 (chr_eq ic) suf (drop (length N - length suf) N)" by simp
  from n cc a bb show ?thesis by blast
qed

lemma three_parts:
  assumes "n1 + n2 \<le> length N"
  shows "take n1 N @ drop n1 (take (length N - n2) N) @ drop (length N - n2) N = N"
proof -
  let ?X = "take (length N - n2) N"
  from assms have "n1 \<le> length N - n2" by arith
  then have "take n1 N = take n1 ?X" by (simp add: min_def)
  then have e: "take n1 N @ drop n1 ?X = ?X" by (simp only: append_take_drop_id)
  have "take n1 N @ drop n1 ?X @ drop (length N - n2) N =
        (take n1 N @ drop n1 ?X) @ drop (length N - n2) N"
    by (simp only: append_assoc)
  also have "\<dots> = ?X @ drop (length N - n2) N" by (simp only: e)
  also have "\<dots> = N" by (rule append_take_drop_id)
  finally show ?thesis .
qed

lemma ascii_lower_bracket: "ascii_lower c = CHR ''['' \<longleftrightarrow> c = CHR ''[''"
proof
  assume a: "ascii_lower c = CHR ''[''"
  show "c = CHR ''[''"
  proof (cases "65 \<le> (of_char c :: nat) \<and> (of_char c :: nat) \<le> 90")
    case False
    with a show ?thesis by (simp add: ascii_lower_def Let_def)
  next
    case True
    with a have "char_of ((of_char c :: nat) + 32) = CHR ''[''" by (simp add: ascii_lower_def Let_def)
    then have "(of_char (char_of ((of_char c :: nat) + 32) :: char) :: nat) = of_char (CHR ''['')"
      by simp
    then have "((of_char c :: nat) + 32) mod 256 = 91" by (simp add: of_char_of)
    with True show ?thesis by simp
  qed
next
  assume "c = CHR ''[''"
  then show "ascii_lower c = CHR ''[''" by (simp add: ascii_lower_def Let_def)
qed

lemma chr_eq_bracket: "chr_eq ic (CHR ''['') c \<longleftrightarrow> c = CHR ''[''"
proof (cases ic)
  case True
  have "ascii_lower (CHR ''['') = CHR ''[''" by (simp add: ascii_lower_bracket)
  with True show ?thesis using ascii_lower_bracket [of c] by (auto simp: chr_eq_def)
next
  case False
  then show ?thesis by (auto simp: chr_eq_def)
qed

lemma re_match_literal_only:
  "re_match False (map Literal p) s = (if s = p then Some [] else None)"
proof (induction p arbitrary: s)
  case Nil
  then show ?case by simp
next
  case (Cons c p)
  show ?case
  proof (cases s)
    case Nil
    then show ?thesis by simp
  next
    case (Cons d s1)
    then show ?thesis by (auto simp: Cons.IH chr_eq_def)
  qed
qed

lemma no_star_char_node: "CHR ''*'' \<notin> set p \<Longrightarrow> map char_node p = map Literal p"
  by (induction p) (auto simp: char_node_def)

lemma translate_loop_unclosed:
  assumes "i < length pat" and "pat ! i = CHR ''[''" and "length pat \<le> class_end pat (i + 1)"
  shows "translate_loop pat i res = translate_loop pat (i + 1) (res @ [backslash, CHR ''['']) "
  using assms by (subst translate_loop.simps) simp

lemma classless_example: "classless_from ''a[b'' 0"
  by code_simp



















section \<open>Literal patterns\<close>

text \<open>
  Claim C2.  A pattern without any of the characters \<^verbatim>\<open>* ? [\<close> resolves to
  exactly the one result (pattern, no captures) if \<open>exists\<close> says the path is
  there, and to no result otherwise.  The answer is the same with any fuel and
  with any \<open>listdir\<close> put in place of the globber's own, so no listing takes
  part in it, and it is a value, never an exception.
\<close>

theorem iglob_literal:
  assumes "\<not> has_magic pathname"
  shows "iglob_impl (self\<lparr>listdir := l\<rparr>) fuel pathname rootcall =
           Returns (if exists self pathname then [(pathname, [])] else [])"
  using assms by (subst iglob_impl.simps) simp

theorem iglob_literal_witness:
  "\<not> has_magic ''a/bar.py'' \<and>
   iglob_impl (tree\<lparr>listdir := (\<lambda>p. None)\<rparr>) 0 ''a/bar.py'' True = Returns [(''a/bar.py'', [])] \<and>
   iglob_impl (tree\<lparr>listdir := (\<lambda>p. None)\<rparr>) 0 ''a/none'' True = Returns []"
proof -
  have m1: "\<not> has_magic ''a/bar.py''" and m2: "\<not> has_magic ''a/none''"
    by (simp_all add: has_magic_def is_magic_char_def)
  have e1: "exists tree ''a/bar.py''" and e2: "\<not> exists tree ''a/none''"
    by (simp_all add: tree_def tree_dirs_def tree_files_def unslash_def)
  show ?thesis
    using iglob_literal [OF m1, where self = tree and l = "\<lambda>p. None" and fuel = 0 and rootcall = True]
      iglob_literal [OF m2, where self = tree and l = "\<lambda>p. None" and fuel = 0 and rootcall = True]
      m1 e1 e2
    by simp
qed

section \<open>The empty segment\<close>

text \<open>
  Claim C5.  \<^verbatim>\<open>resolve_pattern(dirname, '', g)\<close> returns the one result (empty
  name, no captures) if \<open>isdir\<close> holds of \<open>dirname\<close> and no result otherwise.
  The answer is the same with any fuel and with any \<open>listdir\<close> in place of the
  globber's own: nothing is listed.
\<close>

theorem resolve_pattern_empty:
  "resolve_pattern (self\<lparr>listdir := l\<rparr>) fuel dirname [] g =
     Returns (if isdir self dirname then [([], [])] else [])"
  by (simp add: resolve_pattern_def has_magic_def)

theorem resolve_pattern_empty_witness:
  "resolve_pattern (tree\<lparr>listdir := (\<lambda>p. None)\<rparr>) 0 ''a/foo'' [] False = Returns [([], [])] \<and>
   resolve_pattern (tree\<lparr>listdir := (\<lambda>p. None)\<rparr>) 0 ''file.py'' [] True = Returns []"
proof -
  have d1: "isdir tree ''a/foo''" and d2: "\<not> isdir tree ''file.py''"
    by (simp_all add: tree_def tree_dirs_def unslash_def)
  show ?thesis
    using resolve_pattern_empty [where self = tree and l = "\<lambda>p. None" and fuel = 0
          and dirname = "''a/foo''" and g = False]
      resolve_pattern_empty [where self = tree and l = "\<lambda>p. None" and fuel = 0
          and dirname = "''file.py''" and g = True]
      d1 d2
    by simp
qed

section \<open>Hidden entries\<close>

text \<open>
  Claim C4.  For a pattern with a wildcard that is not exactly \<^verbatim>\<open>**\<close>, and a
  directory that can be listed: \<^verbatim>\<open>resolve_pattern\<close> hands to the matcher the
  listed names without those whose first character is a dot, unless
  \<open>include_hidden\<close> is set or the pattern itself starts with a dot, in which
  case it hands over all of them.  Hence, without \<open>include_hidden\<close> and with a
  pattern that does not start with a dot, every name in the results is a listed
  name that does not start with a dot.
\<close>

theorem hidden_entries_excluded:
  assumes "has_magic pattern" and "pattern \<noteq> ''**''"
    and "listdir self (if dirname = [] then ''.'' else dirname) = Some names"
  shows "resolve_pattern self fuel dirname pattern g =
           lift_exn (filter_names self
                       (if include_hidden self \<or> hd pattern = CHR ''.'' then names
                        else filter (\<lambda>x. x = [] \<or> hd x \<noteq> CHR ''.'') names)
                       pattern) \<and>
         (\<not> include_hidden self \<and> hd pattern \<noteq> CHR ''.'' \<longrightarrow>
            (\<forall>rs. resolve_pattern self fuel dirname pattern g = Returns rs \<longrightarrow>
               (\<forall>(name, groups) \<in> set rs. name \<in> set names \<and> (name = [] \<or> hd name \<noteq> CHR ''.''))))"
proof (intro conjI impI allI)
  show eq: "resolve_pattern self fuel dirname pattern g =
           lift_exn (filter_names self
                       (if include_hidden self \<or> hd pattern = CHR ''.'' then names
                        else filter (\<lambda>x. x = [] \<or> hd x \<noteq> CHR ''.'') names)
                       pattern)"
    using assms(3) by (simp add: resolve_pattern_magic [OF assms(1,2)])
  fix rs
  assume a: "\<not> include_hidden self \<and> hd pattern \<noteq> CHR ''.''"
    and r: "resolve_pattern self fuel dirname pattern g = Returns rs"
  let ?vis = "filter (\<lambda>x. x = [] \<or> hd x \<noteq> CHR ''.'') names"
  from eq a r have "lift_exn (filter_names self ?vis pattern) = Returns rs" by simp
  then have f: "filter_names self ?vis pattern = Inr rs"
    by (cases "filter_names self ?vis pattern") simp_all
  show "\<forall>(name, groups) \<in> set rs. name \<in> set names \<and> (name = [] \<or> hd name \<noteq> CHR ''.'')"
  proof (rule ballI, rule case_prodI2)
    fix x name groups
    assume "x \<in> set rs" "x = (name, groups)"
    then have "(name, groups) \<in> set rs" by simp
    with f have "name \<in> set ?vis" by (rule filter_names_member)
    then show "name \<in> set names \<and> (name = [] \<or> hd name \<noteq> CHR ''.'')" by simp
  qed
qed

theorem hidden_entries_excluded_witness:
  "has_magic ''*'' \<and> ''*'' \<noteq> ''**'' \<and>
   listdir hidden_tree ''.'' = Some [''a'', ''b'', ''.cache'', ''file.py'', ''file.txt'', ''README''] \<and>
   resolve_pattern hidden_tree 0 [] ''*'' False =
     Returns [(''a'', [''a'']), (''b'', [''b'']), (''file.py'', [''file.py'']),
              (''file.txt'', [''file.txt'']), (''README'', [''README''])] \<and>
   \<not> (\<exists>name groups.
         (name, groups) \<in> set [(''a'', [''a'']), (''b'', [''b'']), (''file.py'', [''file.py'']),
              (''file.txt'', [''file.txt'']), (''README'', [''README''])] \<and>
         name \<noteq> [] \<and> hd name = CHR ''.'') \<and>
   resolve_pattern hidden_tree 0 [] ''.*'' False = Returns [(''.cache'', [''cache''])]"
proof -
  have m: "has_magic ''*''" by (simp add: has_magic_def is_magic_char_def)
  have n: "''*'' \<noteq> ''**''" by simp
  have l0: "listdir hidden_tree ''.'' =
      Some [''a'', ''b'', ''.cache'', ''file.py'', ''file.txt'', ''README'']"
    by (simp add: hidden_tree_def hidden_dirs_def unslash_def)
  then have l: "listdir hidden_tree (if [] = ([]::string) then ''.'' else []) =
      Some [''a'', ''b'', ''.cache'', ''file.py'', ''file.txt'', ''README'']"
    by simp
  have h: "\<not> include_hidden hidden_tree \<and> hd ''*'' \<noteq> CHR ''.''"
    by (simp add: hidden_tree_def)
  have r: "resolve_pattern hidden_tree 0 [] ''*'' False =
     Returns [(''a'', [''a'']), (''b'', [''b'']), (''file.py'', [''file.py'']),
              (''file.txt'', [''file.txt'']), (''README'', [''README''])]"
    by code_simp
  have d: "resolve_pattern hidden_tree 0 [] ''.*'' False = Returns [(''.cache'', [''cache''])]"
    by code_simp
  from hidden_entries_excluded [OF m n l, where fuel = 0 and g = False] h r
  have "\<forall>(name, groups) \<in> set [(''a'', [''a'']), (''b'', [''b'']), (''file.py'', [''file.py'']),
              (''file.txt'', [''file.txt'']), (''README'', [''README''])].
      name \<in> set [''a'', ''b'', ''.cache'', ''file.py'', ''file.txt'', ''README''] \<and>
      (name = [] \<or> hd name \<noteq> CHR ''.'')"
    by blast
  then have "\<not> (\<exists>name groups.
         (name, groups) \<in> set [(''a'', [''a'']), (''b'', [''b'']), (''file.py'', [''file.py'']),
              (''file.txt'', [''file.txt'']), (''README'', [''README''])] \<and>
         name \<noteq> [] \<and> hd name = CHR ''.'')"
    by fast
  with m n l0 r d show ?thesis by blast
qed

section \<open>No index into an empty sequence\<close>

text \<open>
  Claim C10.  \<^verbatim>\<open>_ishidden\<close> raises IndexError on the empty name, but no call
  reaches it there: the hidden filter answers for the empty name without
  calling it, so an empty candidate is kept; a pattern with a wildcard is not
  empty; \<^verbatim>\<open>translate\<close> never reads \<^verbatim>\<open>stuff[0]\<close> of an empty \<open>stuff\<close>.  So
  neither \<^verbatim>\<open>resolve_pattern\<close> nor \<^verbatim>\<open>_iglob\<close> ever raises IndexError.
\<close>

theorem no_index_error:
  "ishidden [] = Inl IndexError \<and>
   visible [] = Inr True \<and>
   (\<exists>kept. drop_hidden names = Inr kept \<and> ([] \<in> set names \<longrightarrow> [] \<in> set kept)) \<and>
   (has_magic pattern \<longrightarrow> (\<exists>h. ishidden pattern = Inr h)) \<and>
   (\<exists>res. translate pattern = Inr res) \<and>
   resolve_pattern self fuel dirname pattern g \<noteq> Raises IndexError \<and>
   iglob_impl self fuel pathname rootcall \<noteq> Raises IndexError"
proof (intro conjI)
  show "ishidden [] = Inl IndexError" by (simp add: ishidden_def)
  show "visible [] = Inr True" by (simp add: visible_def)
  show "\<exists>kept. drop_hidden names = Inr kept \<and> ([] \<in> set names \<longrightarrow> [] \<in> set kept)"
    by (simp add: drop_hidden_eq)
  show "has_magic pattern \<longrightarrow> (\<exists>h. ishidden pattern = Inr h)"
    using ishidden_nonempty [OF has_magic_nonempty] by blast
  show "\<exists>res. translate pattern = Inr res" by (rule translate_Inr)
  show "resolve_pattern self fuel dirname pattern g \<noteq> Raises IndexError"
    by (rule resolve_pattern_no_IndexError)
  show "iglob_impl self fuel pathname rootcall \<noteq> Raises IndexError"
    by (rule iglob_impl_no_IndexError)
qed

theorem no_index_error_witness:
  "has_magic ''*.py'' \<and>
   (\<exists>kept. drop_hidden [[], ''.cache'', ''a''] = Inr kept \<and> [] \<in> set kept) \<and>
   (\<exists>h. ishidden ''*.py'' = Inr h) \<and>
   resolve_pattern hidden_tree 3 [] ''*.py'' True \<noteq> Raises IndexError \<and>
   iglob_impl hidden_tree 3 ''**/*.py'' True \<noteq> Raises IndexError"
proof -
  have m: "has_magic ''*.py''" by (simp add: has_magic_def is_magic_char_def)
  note w = no_index_error [where names = "[[], ''.cache'', ''a'']" and pattern = "''*.py''"
        and self = hidden_tree and fuel = 3 and dirname = "[]" and g = True
        and pathname = "''**/*.py''" and rootcall = True]
  have e: "[] \<in> set [[], ''.cache'', ''a'']" by simp
  from w e have 1: "\<exists>kept. drop_hidden [[], ''.cache'', ''a''] = Inr kept \<and> [] \<in> set kept"
    by blast
  from w m have 2: "\<exists>h. ishidden ''*.py'' = Inr h" by blast
  from w have 3: "resolve_pattern hidden_tree 3 [] ''*.py'' True \<noteq> Raises IndexError" by blast
  from w have 4: "iglob_impl hidden_tree 3 ''**/*.py'' True \<noteq> Raises IndexError" by blast
  from m 1 2 3 4 show ?thesis by blast
qed

section \<open>The root of a recursive wildcard\<close>



section \<open>Hidden entries under a recursive wildcard\<close>



section \<open>A listing that fails\<close>




section \<open>One star\<close>

text \<open>
  Claim C3, as it stands, fails for a matcher compiled without case
  sensitivity: the pattern \<^verbatim>\<open>a*\<close> accepts the name \<^verbatim>\<open>Ab\<close> with the capture \<^verbatim>\<open>b\<close>,
  and prefix, capture and suffix give \<^verbatim>\<open>ab\<close>, not the name.
\<close>

theorem single_star_capture_counterexample:
  "match_groups ''a*'' False ''Ab'' = Inr (Some [''b'']) \<and> ''a'' @ ''b'' @ [] \<noteq> ''Ab''"
  by code_simp

text \<open>
  Claim C3, amended.  Let the pattern be a prefix, one \<^verbatim>\<open>*\<close> and a suffix, with
  none of \<^verbatim>\<open>* ? [\<close> in prefix and suffix, and let the compiled matcher accept
  the name \<open>N\<close>.  Then there is exactly one capture; it is \<open>N\<close> without its
  first \<open>length pre\<close> and its last \<open>length suf\<close> characters; prefix, capture
  and suffix give back \<open>N\<close> if the matcher is case sensitive, and give back
  \<open>N\<close> up to the case of ASCII letters in any case.
\<close>

theorem single_star_capture:
  assumes "\<not> has_magic pre" and "\<not> has_magic suf"
    and "match_groups (pre @ ''*'' @ suf) cs N = Inr (Some caps)"
  shows "\<exists>c. caps = [c] \<and>
             length pre + length suf \<le> length N \<and>
             c = drop (length pre) (take (length N - length suf) N) \<and>
             (cs \<longrightarrow> pre @ c @ suf = N) \<and>
             map ascii_lower (pre @ c @ suf) = map ascii_lower N"
proof -
  let ?c = "drop (length pre) (take (length N - length suf) N)"
  have nodes: "map char_node (pre @ ''*'' @ suf) = map Literal pre @ GroupStar # map Literal suf"
    using assms(1,2) by (simp add: not_magic_char_node char_node_def)
  have "compile_pattern (pre @ ''*'' @ suf) cs =
          Inr (re_match (\<not> cs) (map char_node (pre @ ''*'' @ suf)))"
    using single_star_classless [OF assms(1,2)] by (rule compile_pattern_classless)
  with assms(3) have "re_match (\<not> cs) (map char_node (pre @ ''*'' @ suf)) N = Some caps"
    by (simp add: match_groups_def)
  then have "re_match (\<not> cs) (map Literal pre @ GroupStar # map Literal suf) N = Some caps"
    by (simp only: nodes)
  from single_star_match [OF this]
  have n: "length pre + length suf \<le> length N" and c: "caps = [?c]"
    and a: "list_all2 (chr_eq (\<not> cs)) pre (take (length pre) N)"
    and b: "list_all2 (chr_eq (\<not> cs)) suf (drop (length N - length suf) N)"
    by simp_all
  note parts = three_parts [OF n]
  have sens: "cs \<longrightarrow> pre @ ?c @ suf = N"
  proof
    assume cs
    with a b have "pre = take (length pre) N" and "suf = drop (length N - length suf) N"
      by (simp_all add: list_all2_chr_eq_sensitive)
    with parts show "pre @ ?c @ suf = N" by simp
  qed
  from a b have "map ascii_lower pre = map ascii_lower (take (length pre) N)"
    and "map ascii_lower suf = map ascii_lower (drop (length N - length suf) N)"
    by (simp_all add: list_all2_chr_eq_lower)
  then have "map ascii_lower (pre @ ?c @ suf) =
      map ascii_lower (take (length pre) N @ ?c @ drop (length N - length suf) N)"
    by simp
  with parts have fold: "map ascii_lower (pre @ ?c @ suf) = map ascii_lower N" by simp
  from c n sens fold show ?thesis by blast
qed

theorem single_star_capture_witness:
  "\<not> has_magic ''a-'' \<and> \<not> has_magic ''.py'' \<and>
   match_groups (''a-'' @ ''*'' @ ''.py'') True ''a-file.py'' = Inr (Some [''file'']) \<and>
   (\<exists>c. [''file''] = [c] \<and> ''a-'' @ c @ ''.py'' = ''a-file.py'')"
proof -
  have p: "\<not> has_magic ''a-''" and s: "\<not> has_magic ''.py''"
    by (simp_all add: has_magic_def is_magic_char_def)
  have m: "match_groups (''a-'' @ ''*'' @ ''.py'') True ''a-file.py'' = Inr (Some [''file''])"
    by code_simp
  from single_star_capture [OF p s m]
  have "\<exists>c. [''file''] = [c] \<and> ''a-'' @ c @ ''.py'' = ''a-file.py''" by blast
  with p s m show ?thesis by blast
qed

section \<open>A bracket that does not close\<close>

text \<open>
  Claim C6.  Let the pattern hold \<^verbatim>\<open>[\<close> at index \<open>i\<close>, and let the scan for the
  end of the class run to the end of the pattern.  Then \<^verbatim>\<open>translate\<close> appends
  what \<^verbatim>\<open>re.escape\<close> gives for \<^verbatim>\<open>[\<close>, a backslash and the bracket, and goes on
  with the character at \<open>i + 1\<close>, as it does for any literal character.  The
  matcher reads the two characters as the literal \<^verbatim>\<open>[\<close>: a name must hold \<^verbatim>\<open>[\<close>
  there, and no capture is added.  \<^verbatim>\<open>translate\<close> never raises.  A pattern free
  of classes compiles, character by character; if it holds no star either,
  the case-sensitive matcher accepts the pattern itself and nothing else, with
  no captures.
\<close>

theorem unclosed_bracket_literal:
  assumes "i < length pat" and "pat ! i = CHR ''[''" and "length pat \<le> class_end pat (i + 1)"
  shows "translate_loop pat i res = translate_loop pat (i + 1) (res @ re_escape (CHR ''['')) \<and>
         re_escape (CHR ''['') = [backslash, CHR ''['']  \<and>
         re_parse (re_escape (CHR ''['') @ rest) = cons_node (Literal (CHR ''['')) (re_parse rest) \<and>
         re_match ic (Literal (CHR ''['') # ts) s =
           (case s of [] \<Rightarrow> None | d # s1 \<Rightarrow> if d = CHR ''['' then re_match ic ts s1 else None) \<and>
         (\<exists>r. translate pat = Inr r) \<and>
         (classless_from pat 0 \<longrightarrow>
            compile_pattern pat cs = Inr (re_match (\<not> cs) (map char_node pat))) \<and>
         (classless_from pat 0 \<and> CHR ''*'' \<notin> set pat \<longrightarrow>
            match_groups pat True N = Inr (if N = pat then Some [] else None))"
proof (intro conjI impI)
  have e: "re_escape (CHR ''['') = [backslash, CHR ''['']"
    by (simp add: re_escape_def re_special_def)
  then show "re_escape (CHR ''['') = [backslash, CHR ''['']" .
  from e translate_loop_unclosed [OF assms]
  show "translate_loop pat i res = translate_loop pat (i + 1) (res @ re_escape (CHR ''['')) "
    by simp
  show "re_parse (re_escape (CHR ''['') @ rest) = cons_node (Literal (CHR ''['')) (re_parse rest)"
    by (rule re_parse_escape)
  show "re_match ic (Literal (CHR ''['') # ts) s =
           (case s of [] \<Rightarrow> None | d # s1 \<Rightarrow> if d = CHR ''['' then re_match ic ts s1 else None)"
    by (cases s) (simp_all add: chr_eq_bracket)
  show "\<exists>r. translate pat = Inr r" by (rule translate_Inr)
next
  assume "classless_from pat 0"
  then show "compile_pattern pat cs = Inr (re_match (\<not> cs) (map char_node pat))"
    by (rule compile_pattern_classless)
next
  assume a: "classless_from pat 0 \<and> CHR ''*'' \<notin> set pat"
  then have "compile_pattern pat True = Inr (re_match (\<not> True) (map char_node pat))"
    using compile_pattern_classless by blast
  moreover from a have "map char_node pat = map Literal pat" by (simp add: no_star_char_node)
  ultimately show "match_groups pat True N = Inr (if N = pat then Some [] else None)"
    by (simp add: match_groups_def re_match_literal_only)
qed

theorem unclosed_bracket_literal_witness:
  "1 < length ''a[b'' \<and> ''a[b'' ! 1 = CHR ''['' \<and> length ''a[b'' \<le> class_end ''a[b'' (1 + 1) \<and>
   classless_from ''a[b'' 0 \<and> CHR ''*'' \<notin> set ''a[b'' \<and>
   translate ''a[b'' = Inr ([CHR ''a'', backslash, CHR ''['', CHR ''b''] @ re_trailer) \<and>
   match_groups ''a[b'' True ''a[b'' = Inr (Some []) \<and>
   match_groups ''a[b'' True ''ab'' = Inr None"
proof -
  have 1: "1 < length ''a[b''" and 2: "''a[b'' ! 1 = CHR ''[''" by simp_all
  have 3: "length ''a[b'' \<le> class_end ''a[b'' (1 + 1)" by code_simp
  note c = classless_example
  have s: "CHR ''*'' \<notin> set ''a[b''" by simp
  have t: "translate ''a[b'' = Inr ([CHR ''a'', backslash, CHR ''['', CHR ''b''] @ re_trailer)"
    by code_simp
  note w = unclosed_bracket_literal [OF 1 2 3]
  from w [where N = "''a[b''"] c s have m1: "match_groups ''a[b'' True ''a[b'' = Inr (Some [])"
    by simp
  from w [where N = "''ab''"] c s have m2: "match_groups ''a[b'' True ''ab'' = Inr None"
    by simp
  from 1 2 3 c s t m1 m2 show ?thesis by blast
qed

section \<open>Termination\<close>



end
